theory Spec2Isabelle
  imports Main
begin

section \<open>The useSSE hook of npl-replit-starter\<close>

text \<open>
  The development embeds \<^verbatim>\<open>src/frontend/src/hooks/useSSE.ts\<close>: the line parser that
  runs inside the read loop (lines 72-127), the read loop itself (lines 64-128) and the
  \<^verbatim>\<open>connect\<close> procedure with its catch block and the two ways of cancelling
  (lines 33-150).

  A JavaScript string is a \<^typ>\<open>string\<close>: one \<^typ>\<open>char\<close> per code unit, which covers the
  code units 0 to 255. The text handed to the parser is what \<^verbatim>\<open>decoder.decode\<close>
  returned for a fragment; decoding itself is not modelled.
\<close>

subsection \<open>String primitives\<close>

definition newline :: char where
  "newline = CHR 0x0A"

definition carriage_return :: char where
  "carriage_return = CHR 0x0D"

text \<open>\<^verbatim>\<open>s.split('\n')\<close>: the segments between newlines; never the empty array.\<close>

fun split_newline :: "string \<Rightarrow> string list" where
  "split_newline [] = [[]]"
| "split_newline (c # cs) =
     (if c = newline then [] # split_newline cs
      else (case split_newline cs of
              [] \<Rightarrow> [[c]]
            | l # ls \<Rightarrow> (c # l) # ls))"

text \<open>
  The characters \<^verbatim>\<open>String.prototype.trim\<close> removes, among the code units 0 to 255:
  tab, line feed, vertical tab, form feed, carriage return, space and no-break space.
\<close>

definition isWhiteSpace :: "char \<Rightarrow> bool" where
  "isWhiteSpace c \<longleftrightarrow>
     c = CHR 0x09 \<or> c = CHR 0x0A \<or> c = CHR 0x0B \<or> c = CHR 0x0C \<or>
     c = CHR 0x0D \<or> c = CHR 0x20 \<or> c = CHR 0xA0"

definition trim :: "string \<Rightarrow> string" where
  "trim s = rev (dropWhile isWhiteSpace (rev (dropWhile isWhiteSpace s)))"

text \<open>\<^verbatim>\<open>s.startsWith(c)\<close> for a one-character search string.\<close>

fun startsWith :: "string \<Rightarrow> char \<Rightarrow> bool" where
  "startsWith [] c = False"
| "startsWith (x # xs) c = (x = c)"

text \<open>\<^verbatim>\<open>s.indexOf(c)\<close>: the first position of \<open>c\<close>; \<open>None\<close> stands for \<open>-1\<close>.\<close>

fun indexOf :: "string \<Rightarrow> char \<Rightarrow> nat option" where
  "indexOf [] c = None"
| "indexOf (x # xs) c = (if x = c then Some 0 else map_option Suc (indexOf xs c))"

subsection \<open>Messages and the accumulator\<close>

text \<open>The interface \<^verbatim>\<open>SSEMessage\<close>: \<open>event\<close> and \<open>id\<close> are optional, \<open>data\<close> is not.\<close>

record SSEMessage =
  event :: "string option"
  data :: string
  id_field :: "string option"

text \<open>\<^verbatim>\<open>currentEvent: Partial<SSEMessage>\<close>: every property may be missing.\<close>

record PartialSSEMessage =
  cur_event :: "string option"
  cur_data :: "string option"
  cur_id :: "string option"

definition empty_event :: PartialSSEMessage where
  "empty_event = \<lparr>cur_event = None, cur_data = None, cur_id = None\<rparr>"

text \<open>
  The truthiness test \<^verbatim>\<open>currentEvent.data ? ... : ...\<close>: a missing property and the
  empty string are both falsy.
\<close>

fun truthy :: "string option \<Rightarrow> bool" where
  "truthy None = False"
| "truthy (Some s) = (s \<noteq> [])"

subsection \<open>One line of the stream (lines 79-126)\<close>

text \<open>The \<^verbatim>\<open>switch (field)\<close> of lines 111-126.\<close>

definition set_field :: "PartialSSEMessage \<Rightarrow> string \<Rightarrow> string \<Rightarrow> PartialSSEMessage" where
  "set_field currentEvent field val =
     (if field = ''event'' then currentEvent\<lparr>cur_event := Some val\<rparr>
      else if field = ''data'' then
        currentEvent\<lparr>cur_data :=
          (if truthy (cur_data currentEvent)
           then Some (the (cur_data currentEvent) @ [newline] @ val)
           else Some val)\<rparr>
      else if field = ''id'' then currentEvent\<lparr>cur_id := Some val\<rparr>
      else if field = ''retry'' then currentEvent
      else currentEvent)"

text \<open>
  The body of the \<^verbatim>\<open>for\<close> loop. The result is the accumulator after the line and the
  argument of the \<^verbatim>\<open>onMessage?.(...)\<close> call the line makes, if it makes one.
\<close>

definition process_line ::
  "PartialSSEMessage \<Rightarrow> string \<Rightarrow> PartialSSEMessage \<times> SSEMessage option" where
  "process_line currentEvent line =
     (if trim line = [] then
        (empty_event,
         if truthy (cur_data currentEvent)
         then Some \<lparr>event = cur_event currentEvent,
                    data = the (cur_data currentEvent),
                    id_field = cur_id currentEvent\<rparr>
         else None)
      else if startsWith line (CHR '':'') then (currentEvent, None)
      else (case indexOf line (CHR '':'') of
              None \<Rightarrow> (currentEvent, None)
            | Some colonIndex \<Rightarrow>
                (let field = take colonIndex line;
                     val = drop (colonIndex + 1) line;
                     val = (if startsWith val (CHR '' '') then drop 1 val else val)
                 in (set_field currentEvent field val, None))))"

text \<open>The \<^verbatim>\<open>for (const line of lines)\<close> loop, with the records it hands out in order.\<close>

fun process_lines ::
  "PartialSSEMessage \<Rightarrow> string list \<Rightarrow> PartialSSEMessage \<times> SSEMessage list" where
  "process_lines currentEvent [] = (currentEvent, [])"
| "process_lines currentEvent (line # lines) =
     (case process_line currentEvent line of
        (currentEvent', out) \<Rightarrow>
          (case process_lines currentEvent' lines of
             (currentEvent'', outs) \<Rightarrow>
               (currentEvent'', (case out of None \<Rightarrow> outs | Some m \<Rightarrow> m # outs))))"

subsection \<open>One fragment (lines 72-127)\<close>

record parser_state =
  buffer :: string
  currentEvent :: PartialSSEMessage

definition initial_state :: parser_state where
  "initial_state = \<lparr>buffer = [], currentEvent = empty_event\<rparr>"

text \<open>\<^verbatim>\<open>lines.pop() || ''\<close>: the last segment, the empty string when there is none.\<close>

definition pop_or_empty :: "string list \<Rightarrow> string" where
  "pop_or_empty lines = (if lines = [] then [] else last lines)"

text \<open>
  What one iteration of the \<^verbatim>\<open>while\<close> loop does with a decoded fragment: the new
  buffer and accumulator, and the records passed to \<^verbatim>\<open>onMessage\<close>.
\<close>

definition feed :: "parser_state \<Rightarrow> string \<Rightarrow> parser_state \<times> SSEMessage list" where
  "feed st chunk =
     (let lines = split_newline (buffer st @ chunk) in
      (case process_lines (currentEvent st) (butlast lines) of
         (currentEvent', outs) \<Rightarrow>
           (\<lparr>buffer = pop_or_empty lines, currentEvent = currentEvent'\<rparr>, outs)))"

text \<open>Fragments fed one after the other.\<close>

fun feed_all :: "parser_state \<Rightarrow> string list \<Rightarrow> parser_state \<times> SSEMessage list" where
  "feed_all st [] = (st, [])"
| "feed_all st (chunk # chunks) =
     (case feed st chunk of
        (st', outs) \<Rightarrow>
          (case feed_all st' chunks of
             (st'', outs') \<Rightarrow> (st'', outs @ outs')))"

subsection \<open>The subscription attempt (lines 29-150)\<close>

text \<open>
  An attempt is one run of the effect with \<^verbatim>\<open>enabled\<close> true: it sets
  \<^verbatim>\<open>isSubscribed\<close>, creates the abort controller and calls \<^verbatim>\<open>connect\<close>. The
  \<^verbatim>\<open>console\<close> calls are left out.
\<close>

text \<open>
  What a rejected promise or a \<^verbatim>\<open>throw\<close> carries: an \<^verbatim>\<open>Error\<close> with its message, or
  a value that is not an \<^verbatim>\<open>Error\<close>.
\<close>

datatype thrown = ErrorObject string | OtherValue

text \<open>
  The two ways the caller cancels: \<^verbatim>\<open>disconnect()\<close> (lines 147-149) aborts the
  controller; the effect cleanup (lines 139-143) clears \<^verbatim>\<open>isSubscribed\<close> and aborts.
\<close>

datatype caller_action = NoAction | CallDisconnect | RunCleanup

text \<open>
  What can be observed of an attempt, in order: a cancellation being requested and the
  calls of the two callbacks (\<^verbatim>\<open>onError\<close> with the message of the \<^verbatim>\<open>Error\<close> it gets).
\<close>

datatype trace_event = CancelRequested | OnMessage SSEMessage | OnError string

record attempt =
  isSubscribed :: bool
  aborted :: bool
  trace :: "trace_event list"

definition new_attempt :: attempt where
  "new_attempt = \<lparr>isSubscribed = True, aborted = False, trace = []\<rparr>"

fun request :: "caller_action \<Rightarrow> attempt \<Rightarrow> attempt" where
  "request NoAction s = s"
| "request CallDisconnect s = s\<lparr>aborted := True, trace := trace s @ [CancelRequested]\<rparr>"
| "request RunCleanup s =
     s\<lparr>isSubscribed := False, aborted := True, trace := trace s @ [CancelRequested]\<rparr>"

text \<open>
  An \<^verbatim>\<open>await\<close>: what the caller does while the attempt is suspended, then how the
  promise settles (\<open>Never\<close>: it does not).
\<close>

datatype 'a promise = Resolves 'a | Rejects thrown | Never

type_synonym 'a await = "caller_action \<times> 'a promise"

text \<open>The result of \<^verbatim>\<open>reader.read()\<close>, the value already decoded to text.\<close>

datatype read_result = Chunk string | Done

text \<open>
  The response of \<^verbatim>\<open>fetch\<close>: \<open>body\<close> is \<open>None\<close> when \<^verbatim>\<open>response.body\<close> is null, and
  otherwise lists the reads of its reader in order; after the last one the reader
  stays pending.
\<close>

record response =
  ok :: bool
  statusText :: string
  body :: "read_result await list option"

text \<open>
  A call of \<^verbatim>\<open>onMessage\<close>: the callback is the caller's code, so it may cancel the
  subscription and it may throw. It is a function of what has happened so far and of
  the record it receives.
\<close>

record callback_result =
  cb_action :: caller_action
  cb_throws :: "thrown option"

type_synonym handler = "trace_event list \<Rightarrow> SSEMessage \<Rightarrow> callback_result"

text \<open>
  The options of the hook and the behaviour of its surroundings: \<open>fetch\<close> is given the
  value of the \<^verbatim>\<open>Authorization\<close> header; \<open>onMessage\<close> is \<open>None\<close> and \<open>onError\<close> is
  \<open>False\<close> when the option is left out.
\<close>

record environment =
  getToken :: "string await"
  fetch :: "string \<Rightarrow> response await"
  onMessage :: "handler option"
  onError :: bool

text \<open>Where an exception that reaches the catch block was thrown.\<close>

datatype failure =
  CredentialFailure | RequestFailure | NonSuccessResponse | BodyNotReadable
| ReadFailure | CallbackException

text \<open>How the attempt ends, if it does.\<close>

datatype outcome =
  StreamEnded | LoopGuardFalse | Caught failure thrown | Suspended

text \<open>
  The \<^verbatim>\<open>for\<close> loop again, now with the callback's effects: a record goes to
  \<^verbatim>\<open>onMessage\<close> if there is one, and an exception of the callback leaves the loop.
\<close>

fun run_lines ::
  "handler option \<Rightarrow> attempt \<Rightarrow> PartialSSEMessage \<Rightarrow> string list
     \<Rightarrow> attempt \<times> (thrown + PartialSSEMessage)" where
  "run_lines h s cur [] = (s, Inr cur)"
| "run_lines h s cur (line # lines) =
     (case process_line cur line of
        (cur', None) \<Rightarrow> run_lines h s cur' lines
      | (cur', Some m) \<Rightarrow>
          (case h of
             None \<Rightarrow> run_lines h s cur' lines
           | Some f \<Rightarrow>
               (let r = f (trace s) m;
                    s' = request (cb_action r) (s\<lparr>trace := trace s @ [OnMessage m]\<rparr>)
                in (case cb_throws r of
                      Some e \<Rightarrow> (s', Inl e)
                    | None \<Rightarrow> run_lines h s' cur' lines))))"

text \<open>The \<^verbatim>\<open>while (isSubscribed)\<close> loop of lines 64-128.\<close>

fun read_loop ::
  "handler option \<Rightarrow> attempt \<Rightarrow> parser_state \<Rightarrow> read_result await list
     \<Rightarrow> attempt \<times> outcome" where
  "read_loop h s st reads =
     (if \<not> isSubscribed s then (s, LoopGuardFalse)
      else (case reads of
              [] \<Rightarrow> (s, Suspended)
            | (a, p) # rest \<Rightarrow>
                (let s' = request a s in
                 (case p of
                    Never \<Rightarrow> (s', Suspended)
                  | Rejects e \<Rightarrow> (s', Caught ReadFailure e)
                  | Resolves Done \<Rightarrow> (s', StreamEnded)
                  | Resolves (Chunk chunk) \<Rightarrow>
                      (let lines = split_newline (buffer st @ chunk) in
                       (case run_lines h s' (currentEvent st) (butlast lines) of
                          (s'', Inl e) \<Rightarrow> (s'', Caught CallbackException e)
                        | (s'', Inr cur') \<Rightarrow>
                            read_loop h s''
                              \<lparr>buffer = pop_or_empty lines, currentEvent = cur'\<rparr> rest))))))"

declare read_loop.simps [simp del]

text \<open>\<^verbatim>\<open>error instanceof Error ? error : new Error('SSE connection error')\<close>, as its message.\<close>

fun error_message :: "thrown \<Rightarrow> string" where
  "error_message (ErrorObject msg) = msg"
| "error_message OtherValue = ''SSE connection error''"

text \<open>The catch block of lines 129-134.\<close>

definition catch_block :: "bool \<Rightarrow> attempt \<Rightarrow> thrown \<Rightarrow> attempt" where
  "catch_block has_onError s e =
     (if \<not> aborted s \<and> isSubscribed s then
        (if has_onError then s\<lparr>trace := trace s @ [OnError (error_message e)]\<rparr> else s)
      else s)"

definition finish :: "bool \<Rightarrow> attempt \<times> outcome \<Rightarrow> attempt \<times> outcome" where
  "finish has_onError r =
     (case r of
        (s, Caught cause e) \<Rightarrow> (catch_block has_onError s e, Caught cause e)
      | (s, out) \<Rightarrow> (s, out))"

text \<open>The body of \<^verbatim>\<open>connect\<close> up to the catch block (lines 35-128).\<close>

definition try_block :: "environment \<Rightarrow> attempt \<times> outcome" where
  "try_block env =
     (case getToken env of (a1, p1) \<Rightarrow>
        (let s1 = request a1 new_attempt in
         (case p1 of
            Never \<Rightarrow> (s1, Suspended)
          | Rejects e \<Rightarrow> (s1, Caught CredentialFailure e)
          | Resolves token \<Rightarrow>
              (case fetch env (''Bearer '' @ token) of (a2, p2) \<Rightarrow>
                 (let s2 = request a2 s1 in
                  (case p2 of
                     Never \<Rightarrow> (s2, Suspended)
                   | Rejects e \<Rightarrow> (s2, Caught RequestFailure e)
                   | Resolves resp \<Rightarrow>
                       (if \<not> ok resp then
                          (s2, Caught NonSuccessResponse
                                 (ErrorObject (''SSE connection failed: '' @ statusText resp)))
                        else (case body resp of
                                None \<Rightarrow>
                                  (s2, Caught BodyNotReadable
                                         (ErrorObject ''Response body is not readable''))
                              | Some reads \<Rightarrow>
                                  read_loop (onMessage env) s2 initial_state reads))))))))"

text \<open>One subscription attempt: the trace it leaves and how it ends.\<close>

definition connect :: "environment \<Rightarrow> trace_event list \<times> outcome" where
  "connect env = (case finish (onError env) (try_block env) of (s, out) \<Rightarrow> (trace s, out))"

section \<open>Vocabulary of the properties\<close>

text \<open>Complete lines as stream text: every line is followed by a newline.\<close>

definition stream_text :: "string list \<Rightarrow> string" where
  "stream_text ls = concat (map (\<lambda>l. l @ [newline]) ls)"

text \<open>Values joined with a single newline between neighbours.\<close>

fun join_newline :: "string list \<Rightarrow> string" where
  "join_newline [] = []"
| "join_newline [v] = v"
| "join_newline (v # w # vs) = v @ [newline] @ join_newline (w # vs)"

text \<open>
  The value a line carries for a field: the text after the field name and the colon,
  less one leading space. \<open>None\<close> when the line does not start with that name and a colon.
\<close>

definition field_value :: "string \<Rightarrow> string \<Rightarrow> string option" where
  "field_value name l =
     (if take (length name + 1) l = name @ '':''
      then Some (case drop (length name + 1) l of
                   [] \<Rightarrow> []
                 | c # r \<Rightarrow> if c = CHR '' '' then r else c # r)
      else None)"

text \<open>The values of the \<open>data\<close> lines of a block, in order.\<close>

definition data_values :: "string list \<Rightarrow> string list" where
  "data_values ls = List.map_filter (field_value ''data'') ls"

text \<open>The calls of \<^verbatim>\<open>onError\<close>, and the calls of either callback, among the events of a trace.\<close>

fun is_error :: "trace_event \<Rightarrow> bool" where
  "is_error (OnError msg) = True"
| "is_error e = False"

fun is_callback :: "trace_event \<Rightarrow> bool" where
  "is_callback CancelRequested = False"
| "is_callback e = True"

text \<open>What a trace holds after the first request to cancel.\<close>

fun after_cancel :: "trace_event list \<Rightarrow> trace_event list" where
  "after_cancel [] = []"
| "after_cancel (e # es) = (if e = CancelRequested then es else after_cancel es)"

text \<open>
  Surroundings used as examples: a token is supplied, the request succeeds and the body
  delivers the given reads.
\<close>

definition streaming :: "read_result await list \<Rightarrow> handler option \<Rightarrow> environment" where
  "streaming reads h =
     \<lparr>getToken = (NoAction, Resolves ''t''),
      fetch = (\<lambda>authorization.
        (NoAction, Resolves \<lparr>ok = True, statusText = ''OK'', body = Some reads\<rparr>)),
      onMessage = h,
      onError = True\<rparr>"

text \<open>A callback that calls \<^verbatim>\<open>disconnect()\<close> whenever it gets a record.\<close>

definition stopping_callback :: handler where
  "stopping_callback t m = \<lparr>cb_action = CallDisconnect, cb_throws = None\<rparr>"

text \<open>A callback that throws \<^verbatim>\<open>new Error('boom')\<close> whenever it gets a record.\<close>

definition throwing_callback :: handler where
  "throwing_callback t m = \<lparr>cb_action = NoAction, cb_throws = Some (ErrorObject ''boom'')\<rparr>"

text \<open>A callback that only returns.\<close>

definition returning_callback :: handler where
  "returning_callback t m = \<lparr>cb_action = NoAction, cb_throws = None\<rparr>"

text \<open>
  What holds of an attempt until its catch block: \<open>onError\<close> has not been called, and the
  signal is aborted exactly if a request to cancel has been recorded.
\<close>

definition consistent :: "attempt \<Rightarrow> bool" where
  "consistent s \<longleftrightarrow>
     filter is_error (trace s) = [] \<and> (aborted s \<longleftrightarrow> CancelRequested \<in> set (trace s))"

section \<open>Lines and fragments\<close>

lemma split_newline_not_Nil: "split_newline s \<noteq> []"
  by (induction s) (auto split: list.splits)

lemma split_newline_append:
  "split_newline (x @ y) =
     butlast (split_newline x) @ split_newline (last (split_newline x) @ y)"
proof (induction x)
  case Nil
  then show ?case by simp
next
  case (Cons c x)
  show ?case
  proof (cases "c = newline")
    case True
    then show ?thesis using Cons split_newline_not_Nil by simp
  next
    case False
    obtain l ls where s: "split_newline x = l # ls"
      using split_newline_not_Nil by (cases "split_newline x") auto
    show ?thesis
    proof (cases ls)
      case Nil
      then show ?thesis using Cons False s by simp
    next
      case (Cons a list)
      obtain l2 ls2 where s2: "split_newline (last ls @ y) = l2 # ls2"
        using split_newline_not_Nil by (cases "split_newline (last ls @ y)") auto
      show ?thesis using Cons.IH False s Cons s2 by simp
    qed
  qed
qed

lemma split_newline_line:
  "newline \<notin> set l \<Longrightarrow> split_newline (l @ newline # r) = l # split_newline r"
  by (induction l) auto

lemma split_newline_lines:
  "(\<forall>l\<in>set ls. newline \<notin> set l) \<Longrightarrow>
     split_newline (stream_text ls @ r) = ls @ split_newline r"
  by (induction ls) (auto simp: split_newline_line stream_text_def)

lemma split_newline_no_newline: "newline \<notin> set s \<Longrightarrow> split_newline s = [s]"
  by (induction s) auto

lemma process_lines_append:
  "process_lines cur (xs @ ys) =
     (case process_lines cur xs of (cur', o1) \<Rightarrow>
        (case process_lines cur' ys of (cur'', o2) \<Rightarrow> (cur'', o1 @ o2)))"
  by (induction xs arbitrary: cur) (auto split: prod.splits option.splits)

lemma feed_append:
  "feed st (a @ b) =
     (case feed st a of (st', o1) \<Rightarrow>
        (case feed st' b of (st'', o2) \<Rightarrow> (st'', o1 @ o2)))"
proof -
  let ?x = "buffer st @ a"
  have sp: "split_newline (?x @ b) =
      butlast (split_newline ?x) @ split_newline (last (split_newline ?x) @ b)"
    by (rule split_newline_append)
  have bl: "butlast (split_newline (?x @ b)) =
      butlast (split_newline ?x) @ butlast (split_newline (last (split_newline ?x) @ b))"
    unfolding sp by (simp add: butlast_append split_newline_not_Nil)
  have la: "last (split_newline (?x @ b)) =
      last (split_newline (last (split_newline ?x) @ b))"
    unfolding sp by (simp add: split_newline_not_Nil)
  show ?thesis
    using bl la
    by (simp add: feed_def Let_def pop_or_empty_def split_newline_not_Nil
        process_lines_append split: prod.splits)
qed

lemma feed_all_nonempty:
  "chunks \<noteq> [] \<Longrightarrow> feed_all st chunks = feed st (concat chunks)"
proof (induction chunks arbitrary: st)
  case Nil
  then show ?case by simp
next
  case (Cons c cs)
  show ?case
  proof (cases "cs = []")
    case True
    then show ?thesis by (simp split: prod.splits)
  next
    case False
    then show ?thesis
      using Cons.IH by (simp add: feed_append split: prod.splits)
  qed
qed

lemma feed_initial_Nil: "feed initial_state [] = (initial_state, [])"
  by (simp add: feed_def initial_state_def pop_or_empty_def)

lemma feed_lines:
  assumes "\<forall>l\<in>set ls. newline \<notin> set l"
  shows "feed \<lparr>buffer = [], currentEvent = cur\<rparr> (stream_text ls) =
           (\<lparr>buffer = [], currentEvent = fst (process_lines cur ls)\<rparr>,
            snd (process_lines cur ls))"
proof -
  have "split_newline (stream_text ls @ []) = ls @ split_newline []"
    using assms by (rule split_newline_lines)
  then have "split_newline (stream_text ls) = ls @ [[]]"
    by simp
  then show ?thesis
    by (simp add: feed_def pop_or_empty_def split: prod.splits)
qed

text \<open>
  C1. Chunk-boundary invariance: however a text is cut into fragments, feeding the
  fragments one after the other to a fresh parser hands out the same records in the
  same order, and leaves the same buffer and accumulator, as feeding the whole text
  as one fragment.
\<close>

theorem chunk_boundary_invariance:
  "feed_all initial_state chunks = feed_all initial_state [concat chunks]"
proof (cases "chunks = []")
  case True
  then show ?thesis by (simp add: feed_initial_Nil)
next
  case False
  then show ?thesis by (simp add: feed_all_nonempty)
qed

theorem chunk_boundary_invariance_witness:
  "feed_all initial_state [''data: par'', ''t1'' @ [newline, newline]] =
     (initial_state, [\<lparr>event = None, data = ''part1'', id_field = None\<rparr>])"
  using chunk_boundary_invariance [of "[''data: par'', ''t1'' @ [newline, newline]]"]
  by (simp add: feed_def initial_state_def newline_def process_line_def trim_def
      isWhiteSpace_def empty_event_def set_field_def pop_or_empty_def)

section \<open>Single lines\<close>

lemma set_field_data:
  "cur_data (set_field cur f v) =
     (if f = ''data'' then
        (if truthy (cur_data cur) then Some (the (cur_data cur) @ [newline] @ v) else Some v)
      else cur_data cur)"
  by (simp add: set_field_def)

lemma set_field_event:
  "cur_event (set_field cur f v) = (if f = ''event'' then Some v else cur_event cur)"
  by (simp add: set_field_def)

lemma set_field_unknown:
  "f \<noteq> ''event'' \<Longrightarrow> f \<noteq> ''data'' \<Longrightarrow> f \<noteq> ''id'' \<Longrightarrow> set_field cur f v = cur"
  by (simp add: set_field_def)

lemma trim_eq_Nil: "trim s = [] \<longleftrightarrow> (\<forall>c\<in>set s. isWhiteSpace c)"
proof
  assume "trim s = []"
  then have all: "\<forall>c\<in>set (dropWhile isWhiteSpace s). isWhiteSpace c"
    by (simp add: trim_def dropWhile_eq_Nil_conv)
  have "dropWhile isWhiteSpace s = []"
  proof (rule ccontr)
    assume ne: "dropWhile isWhiteSpace s \<noteq> []"
    then have "\<not> isWhiteSpace (hd (dropWhile isWhiteSpace s))"
      by (rule hd_dropWhile)
    moreover have "hd (dropWhile isWhiteSpace s) \<in> set (dropWhile isWhiteSpace s)"
      using ne by simp
    ultimately show False using all by blast
  qed
  then show "\<forall>c\<in>set s. isWhiteSpace c"
    by (simp add: dropWhile_eq_Nil_conv)
next
  assume "\<forall>c\<in>set s. isWhiteSpace c"
  then show "trim s = []"
    by (auto simp: trim_def dest: set_dropWhileD)
qed

lemma colon_not_white: "\<not> isWhiteSpace (CHR '':'')"
  by (simp add: isWhiteSpace_def)

lemma colon_not_blank: "CHR '':'' \<in> set s \<Longrightarrow> trim s \<noteq> []"
  using colon_not_white by (auto simp: trim_eq_Nil)

lemma indexOf_first: "c \<notin> set f \<Longrightarrow> indexOf (f @ c # r) c = Some (length f)"
  by (induction f) auto

lemma indexOf_None: "indexOf s c = None \<longleftrightarrow> c \<notin> set s"
  by (induction s) auto

lemma indexOf_Some:
  "indexOf s c = Some i \<Longrightarrow> s = take i s @ c # drop (Suc i) s \<and> c \<notin> set (take i s)"
proof (induction s arbitrary: i)
  case Nil
  then show ?case by simp
next
  case (Cons x xs)
  show ?case
  proof (cases "x = c")
    case True
    then show ?thesis using Cons.prems by simp
  next
    case False
    then obtain j where j: "indexOf xs c = Some j" "i = Suc j"
      using Cons.prems by auto
    then show ?thesis using Cons.IH [OF j(1)] False by simp
  qed
qed

lemma first_colon_unique:
  assumes "c \<notin> set f" and "c \<notin> set g" and "f @ c # r = g @ c # r'"
  shows "f = g"
proof -
  have "takeWhile (\<lambda>x. x \<noteq> c) (f @ c # r) = f"
    using assms(1) by (induction f) auto
  moreover have "takeWhile (\<lambda>x. x \<noteq> c) (g @ c # r') = g"
    using assms(2) by (induction g) auto
  ultimately show ?thesis using assms(3) by simp
qed

lemma process_line_field:
  assumes "CHR '':'' \<notin> set f" and "f \<noteq> []"
  shows "process_line cur (f @ CHR '':'' # r) =
           (set_field cur f (if startsWith r (CHR '' '') then drop 1 r else r), None)"
proof -
  have nb: "trim (f @ CHR '':'' # r) \<noteq> []"
    by (rule colon_not_blank) simp
  have ns: "\<not> startsWith (f @ CHR '':'' # r) (CHR '':'')"
    using assms by (cases f) auto
  have ix: "indexOf (f @ CHR '':'' # r) (CHR '':'') = Some (length f)"
    using assms(1) by (rule indexOf_first)
  show ?thesis
    unfolding process_line_def using nb ns ix by (simp add: Let_def)
qed

text \<open>The three ways a line that is not blank is handled.\<close>

lemma process_line_nonblank:
  assumes "trim l \<noteq> []"
  shows "process_line cur l = (cur, None) \<and> (startsWith l (CHR '':'') \<or> CHR '':'' \<notin> set l)
       \<or> (\<exists>f r. l = f @ CHR '':'' # r \<and> CHR '':'' \<notin> set f \<and> f \<noteq> [] \<and>
             process_line cur l =
               (set_field cur f (if startsWith r (CHR '' '') then drop 1 r else r), None))"
proof (cases "startsWith l (CHR '':'')")
  case True
  then show ?thesis using assms by (simp add: process_line_def)
next
  case ns: False
  show ?thesis
  proof (cases "indexOf l (CHR '':'')")
    case None
    then have nc: "CHR '':'' \<notin> set l" by (simp add: indexOf_None)
    have "process_line cur l = (cur, None)"
      unfolding process_line_def using assms ns None by simp
    then show ?thesis using nc by simp
  next
    case (Some i)
    let ?f = "take i l" and ?r = "drop (Suc i) l"
    have dec: "l = ?f @ CHR '':'' # ?r" and nf: "CHR '':'' \<notin> set ?f"
      using indexOf_Some [OF Some] by simp_all
    have ne: "?f \<noteq> []"
    proof
      assume "?f = []"
      with dec have "l = [] @ CHR '':'' # ?r" by metis
      then have "startsWith l (CHR '':'')" by (cases l) auto
      then show False using ns by simp
    qed
    have "process_line cur (?f @ CHR '':'' # ?r) =
            (set_field cur ?f (if startsWith ?r (CHR '' '') then drop 1 ?r else ?r), None)"
      using nf ne by (rule process_line_field)
    then have "process_line cur l =
            (set_field cur ?f (if startsWith ?r (CHR '' '') then drop 1 ?r else ?r), None)"
      using dec by simp
    then show ?thesis using dec nf ne by blast
  qed
qed

lemma process_line_nonblank_silent: "trim l \<noteq> [] \<Longrightarrow> snd (process_line cur l) = None"
  using process_line_nonblank [of l cur] by auto

lemma field_value_comment:
  "name \<noteq> [] \<Longrightarrow> CHR '':'' \<notin> set name \<Longrightarrow> startsWith l (CHR '':'') \<Longrightarrow> field_value name l = None"
  by (cases l; cases name) (auto simp: field_value_def)

lemma field_value_no_colon:
  assumes "CHR '':'' \<notin> set l"
  shows "field_value name l = None"
proof -
  have "take (length name + 1) l \<noteq> name @ '':''"
  proof
    assume "take (length name + 1) l = name @ '':''"
    then have "CHR '':'' \<in> set (take (length name + 1) l)" by simp
    then show False using assms by (meson in_set_takeD)
  qed
  then show ?thesis by (simp add: field_value_def)
qed

lemma field_value_split:
  assumes "CHR '':'' \<notin> set f" and "CHR '':'' \<notin> set name"
  shows "field_value name (f @ CHR '':'' # r) =
           (if f = name then Some (if startsWith r (CHR '' '') then drop 1 r else r) else None)"
proof (cases "f = name")
  case True
  then show ?thesis by (cases r) (auto simp: field_value_def)
next
  case False
  have "take (length name + 1) (f @ CHR '':'' # r) \<noteq> name @ '':''"
  proof
    assume eq: "take (length name + 1) (f @ CHR '':'' # r) = name @ '':''"
    have "f @ CHR '':'' # r =
        take (length name + 1) (f @ CHR '':'' # r) @ drop (length name + 1) (f @ CHR '':'' # r)"
      by (rule append_take_drop_id [symmetric])
    then have "f @ CHR '':'' # r =
        (name @ '':'') @ drop (length name + 1) (f @ CHR '':'' # r)"
      unfolding eq .
    then have "f @ CHR '':'' # r = name @ CHR '':'' # drop (length name + 1) (f @ CHR '':'' # r)"
      by (simp del: drop_append)
    then have "f = name" using assms by (rule first_colon_unique [rotated 2])
    then show False using False by simp
  qed
  then show ?thesis using False by (simp add: field_value_def)
qed

text \<open>
  C6. A complete line that is not blank is handled by exactly these rules: if it begins
  with a colon it is ignored; if it contains no colon it is ignored; otherwise it is cut
  at its first colon, the text before the colon is the field name given to the switch,
  and the field value is the text after the colon less one leading space if there is
  one (further leading spaces stay).
\<close>

theorem line_field_rules:
  assumes "trim l \<noteq> []"
  shows "(startsWith l (CHR '':'') \<longrightarrow> process_line cur l = (cur, None)) \<and>
         (CHR '':'' \<notin> set l \<longrightarrow> process_line cur l = (cur, None)) \<and>
         (l = f @ CHR '':'' # r \<and> CHR '':'' \<notin> set f \<and> f \<noteq> [] \<longrightarrow>
            process_line cur l =
              (set_field cur f
                 (case r of [] \<Rightarrow> [] | c # r' \<Rightarrow> if c = CHR '' '' then r' else c # r'),
               None))"
proof (intro conjI impI)
  assume "startsWith l (CHR '':'')"
  then show "process_line cur l = (cur, None)"
    using assms by (simp add: process_line_def)
next
  assume "CHR '':'' \<notin> set l"
  then have "indexOf l (CHR '':'') = None" "\<not> startsWith l (CHR '':'')"
    by (simp add: indexOf_None, cases l) auto
  then show "process_line cur l = (cur, None)"
    using assms by (simp add: process_line_def)
next
  assume a: "l = f @ CHR '':'' # r \<and> CHR '':'' \<notin> set f \<and> f \<noteq> []"
  have "(if startsWith r (CHR '' '') then drop 1 r else r) =
      (case r of [] \<Rightarrow> [] | c # r' \<Rightarrow> if c = CHR '' '' then r' else c # r')"
    by (cases r) simp_all
  then show "process_line cur l =
      (set_field cur f
         (case r of [] \<Rightarrow> [] | c # r' \<Rightarrow> if c = CHR '' '' then r' else c # r'), None)"
    using a process_line_field [of f cur r] by simp
qed

theorem line_field_rules_witness:
  "process_line empty_event ''data:  x'' = (set_field empty_event ''data'' '' x'', None) \<and>
   process_line empty_event '':data: x'' = (empty_event, None) \<and>
   process_line empty_event ''data x'' = (empty_event, None)"
  using line_field_rules [where l = "''data:  x''" and f = "''data''" and r = "''  x''"
                            and cur = empty_event]
    line_field_rules [where l = "'':data: x''" and cur = empty_event]
    line_field_rules [where l = "''data x''" and cur = empty_event]
  by (simp add: trim_def isWhiteSpace_def)

text \<open>
  C9. Field names are matched exactly: a line whose text before the first colon is not
  \<open>event\<close>, \<open>data\<close> or \<open>id\<close> (so \<open>Event\<close>, \<open>DATA\<close>, \<open>data\<close> followed by a space, and also
  \<open>retry\<close>) leaves the accumulator as it was and hands out nothing.
\<close>

theorem unknown_field_ignored:
  assumes "CHR '':'' \<notin> set f" and "f \<noteq> ''event''" and "f \<noteq> ''data''" and "f \<noteq> ''id''"
  shows "process_line cur (f @ CHR '':'' # r) = (cur, None)"
proof (cases "f = []")
  case True
  have "trim (CHR '':'' # r) \<noteq> []" by (rule colon_not_blank) simp
  then show ?thesis using True by (simp add: process_line_def)
next
  case False
  then show ?thesis
    using assms by (simp add: process_line_field set_field_unknown)
qed

theorem unknown_field_ignored_witness:
  "process_line \<lparr>cur_event = Some ''e'', cur_data = Some ''d'', cur_id = Some ''1''\<rparr> ''Event: x'' =
     (\<lparr>cur_event = Some ''e'', cur_data = Some ''d'', cur_id = Some ''1''\<rparr>, None) \<and>
   process_line \<lparr>cur_event = Some ''e'', cur_data = Some ''d'', cur_id = Some ''1''\<rparr> ''DATA: y'' =
     (\<lparr>cur_event = Some ''e'', cur_data = Some ''d'', cur_id = Some ''1''\<rparr>, None) \<and>
   process_line \<lparr>cur_event = Some ''e'', cur_data = Some ''d'', cur_id = Some ''1''\<rparr> ''data : z'' =
     (\<lparr>cur_event = Some ''e'', cur_data = Some ''d'', cur_id = Some ''1''\<rparr>, None)"
  using unknown_field_ignored [where f = "''Event''" and r = "'' x''"]
    unknown_field_ignored [where f = "''DATA''" and r = "'' y''"]
    unknown_field_ignored [where f = "''data ''" and r = "'' z''"]
  by simp

text \<open>
  C10. Text is cut into lines at newlines only, and nothing is trimmed off the right of
  a field value, so with CRLF input the value keeps its carriage return
  (\<open>data: x\<close> CR LF gives the value \<open>x\<close> CR), while a line that is only a carriage
  return is handled as the empty line is and ends the record.
\<close>

theorem carriage_return_kept:
  "(newline \<notin> set s \<longrightarrow> split_newline s = [s]) \<and>
   split_newline (''data: x'' @ [carriage_return, newline]) = [''data: x'' @ [carriage_return], []] \<and>
   process_line cur (''data: '' @ v @ [carriage_return]) =
     (set_field cur ''data'' (v @ [carriage_return]), None) \<and>
   process_line cur [carriage_return] = process_line cur [] \<and>
   feed initial_state (''data: x'' @ [carriage_return, newline, carriage_return, newline]) =
     (initial_state, [\<lparr>event = None, data = ''x'' @ [carriage_return], id_field = None\<rparr>])"
proof (intro conjI impI)
  assume "newline \<notin> set s"
  then show "split_newline s = [s]" by (rule split_newline_no_newline)
next
  show "split_newline (''data: x'' @ [carriage_return, newline]) =
      [''data: x'' @ [carriage_return], []]"
    by (simp add: newline_def carriage_return_def)
next
  have "process_line cur (''data'' @ CHR '':'' # (CHR '' '' # v @ [carriage_return])) =
      (set_field cur ''data''
         (if startsWith (CHR '' '' # v @ [carriage_return]) (CHR '' '')
          then drop 1 (CHR '' '' # v @ [carriage_return])
          else CHR '' '' # v @ [carriage_return]), None)"
    by (rule process_line_field) simp_all
  then show "process_line cur (''data: '' @ v @ [carriage_return]) =
      (set_field cur ''data'' (v @ [carriage_return]), None)"
    by simp
next
  show "process_line cur [carriage_return] = process_line cur []"
    by (simp add: process_line_def trim_def isWhiteSpace_def carriage_return_def)
next
  show "feed initial_state (''data: x'' @ [carriage_return, newline, carriage_return, newline]) =
     (initial_state, [\<lparr>event = None, data = ''x'' @ [carriage_return], id_field = None\<rparr>])"
    by (simp add: feed_def initial_state_def newline_def carriage_return_def process_line_def
        trim_def isWhiteSpace_def empty_event_def set_field_def pop_or_empty_def)
qed

theorem carriage_return_kept_witness:
  "split_newline (''a: b'' @ [carriage_return]) = [''a: b'' @ [carriage_return]] \<and>
   process_line empty_event (''data: x'' @ [carriage_return]) =
     (empty_event\<lparr>cur_data := Some (''x'' @ [carriage_return])\<rparr>, None)"
  using carriage_return_kept [where s = "''a: b'' @ [carriage_return]" and v = "''x''"
      and cur = empty_event]
  by (simp add: newline_def carriage_return_def set_field_def empty_event_def)

section \<open>Blocks of lines\<close>

lemma process_line_data:
  assumes "trim l \<noteq> []"
  shows "cur_data (fst (process_line cur l)) =
           (case field_value ''data'' l of
              None \<Rightarrow> cur_data cur
            | Some v \<Rightarrow>
                if truthy (cur_data cur) then Some (the (cur_data cur) @ [newline] @ v)
                else Some v)"
proof -
  consider (ignored) "process_line cur l = (cur, None)"
      "startsWith l (CHR '':'') \<or> CHR '':'' \<notin> set l"
    | (field) f r where "l = f @ CHR '':'' # r" "CHR '':'' \<notin> set f" "f \<noteq> []"
      "process_line cur l =
         (set_field cur f (if startsWith r (CHR '' '') then drop 1 r else r), None)"
    using process_line_nonblank [OF assms, of cur] by blast
  then show ?thesis
  proof cases
    case ignored
    have "field_value ''data'' l = None"
      using ignored(2) field_value_comment [of "''data''" l] field_value_no_colon [of l "''data''"]
      by auto
    then show ?thesis using ignored(1) by simp
  next
    case field
    have "field_value ''data'' l =
        (if f = ''data'' then Some (if startsWith r (CHR '' '') then drop 1 r else r) else None)"
      unfolding field(1) using field(2) by (intro field_value_split) simp_all
    then show ?thesis using field(4) by (simp add: set_field_data)
  qed
qed

lemma process_line_event:
  assumes "trim l \<noteq> []" and "field_value ''event'' l = None"
  shows "cur_event (fst (process_line cur l)) = cur_event cur"
proof -
  consider (ignored) "process_line cur l = (cur, None)"
    | (field) f r where "l = f @ CHR '':'' # r" "CHR '':'' \<notin> set f" "f \<noteq> []"
      "process_line cur l =
         (set_field cur f (if startsWith r (CHR '' '') then drop 1 r else r), None)"
    using process_line_nonblank [OF assms(1), of cur] by blast
  then show ?thesis
  proof cases
    case ignored
    then show ?thesis by simp
  next
    case field
    have "field_value ''event'' l =
        (if f = ''event'' then Some (if startsWith r (CHR '' '') then drop 1 r else r) else None)"
      unfolding field(1) using field(2) by (intro field_value_split) simp_all
    then have "f \<noteq> ''event''" using assms(2) by (auto split: if_splits)
    then show ?thesis using field(4) by (simp add: set_field_event)
  qed
qed

lemma process_lines_Cons_fst:
  "fst (process_lines cur (l # ls)) = fst (process_lines (fst (process_line cur l)) ls)"
  by (simp split: prod.splits)

lemma process_lines_Cons_snd:
  "snd (process_lines cur (l # ls)) =
     (case snd (process_line cur l) of None \<Rightarrow> [] | Some m \<Rightarrow> [m]) @
     snd (process_lines (fst (process_line cur l)) ls)"
  by (simp split: prod.splits option.splits)

lemma process_lines_snoc:
  "process_lines cur (ls @ [b]) =
     (fst (process_line (fst (process_lines cur ls)) b),
      snd (process_lines cur ls) @
      (case snd (process_line (fst (process_lines cur ls)) b) of None \<Rightarrow> [] | Some m \<Rightarrow> [m]))"
  by (simp add: process_lines_append split: prod.splits option.splits)

lemma process_lines_silent:
  "(\<forall>l\<in>set ls. trim l \<noteq> []) \<Longrightarrow> snd (process_lines cur ls) = []"
proof (induction ls arbitrary: cur)
  case Nil
  then show ?case by simp
next
  case (Cons l ls)
  then have "snd (process_line cur l) = None"
    by (simp add: process_line_nonblank_silent)
  then show ?case using Cons by (simp add: process_lines_Cons_snd del: process_lines.simps)
qed

lemma process_lines_event:
  "(\<forall>l\<in>set ls. trim l \<noteq> [] \<and> field_value ''event'' l = None) \<Longrightarrow>
     cur_event (fst (process_lines cur ls)) = cur_event cur"
proof (induction ls arbitrary: cur)
  case Nil
  then show ?case by simp
next
  case (Cons l ls)
  have "cur_event (fst (process_line cur l)) = cur_event cur"
    using Cons.prems by (simp add: process_line_event)
  moreover have "cur_event (fst (process_lines (fst (process_line cur l)) ls)) =
      cur_event (fst (process_line cur l))"
    using Cons.prems by (intro Cons.IH) simp
  ultimately show ?case by (simp add: process_lines_Cons_fst del: process_lines.simps)
qed

lemma join_newline_Cons_append:
  "join_newline ((d @ newline # v) # vs) = d @ newline # join_newline (v # vs)"
  by (cases vs) simp_all

lemma process_lines_data:
  "(\<forall>l\<in>set ls. trim l \<noteq> []) \<Longrightarrow>
     cur_data (fst (process_lines cur ls)) =
       (if truthy (cur_data cur) then Some (join_newline (the (cur_data cur) # data_values ls))
        else if data_values ls = [] then cur_data cur
        else Some (join_newline (dropWhile (\<lambda>v. v = []) (data_values ls))))"
proof (induction ls arbitrary: cur)
  case Nil
  then show ?case by (cases "cur_data cur") (simp_all add: data_values_def)
next
  case (Cons l ls)
  let ?cur1 = "fst (process_line cur l)"
  have nb: "trim l \<noteq> []" using Cons.prems by simp
  have IH: "cur_data (fst (process_lines ?cur1 ls)) =
       (if truthy (cur_data ?cur1) then Some (join_newline (the (cur_data ?cur1) # data_values ls))
        else if data_values ls = [] then cur_data ?cur1
        else Some (join_newline (dropWhile (\<lambda>v. v = []) (data_values ls))))"
    using Cons.prems by (intro Cons.IH) simp
  have unfold: "cur_data (fst (process_lines cur (l # ls))) =
      cur_data (fst (process_lines ?cur1 ls))"
    by (simp add: process_lines_Cons_fst del: process_lines.simps)
  show ?case
  proof (cases "field_value ''data'' l")
    case None
    then have c1: "cur_data ?cur1 = cur_data cur"
      using process_line_data [OF nb, of cur] by simp
    have dv: "data_values (l # ls) = data_values ls"
      using None by (simp add: data_values_def)
    show ?thesis unfolding unfold IH c1 dv ..
  next
    case (Some v)
    have dv: "data_values (l # ls) = v # data_values ls"
      using Some by (simp add: data_values_def)
    have step: "cur_data ?cur1 =
        (if truthy (cur_data cur) then Some (the (cur_data cur) @ [newline] @ v) else Some v)"
      using process_line_data [OF nb, of cur] Some by simp
    show ?thesis
    proof (cases "truthy (cur_data cur)")
      case True
      then have "cur_data ?cur1 = Some (the (cur_data cur) @ [newline] @ v)"
        using step by simp
      then show ?thesis unfolding unfold IH dv using True
        by (simp add: join_newline_Cons_append)
    next
      case False
      then have c1: "cur_data ?cur1 = Some v"
        using step by simp
      show ?thesis unfolding unfold IH dv c1 using False
        by (cases "v = []") simp_all
    qed
  qed
qed

lemma join_dropWhile_empty:
  "join_newline (dropWhile (\<lambda>v. v = []) vs) = [] \<longleftrightarrow> concat vs = []"
proof (induction vs)
  case Nil
  then show ?case by simp
next
  case (Cons v vs)
  show ?case
  proof (cases "v = []")
    case True
    then show ?thesis using Cons by simp
  next
    case False
    then show ?thesis by (cases vs) simp_all
  qed
qed

text \<open>A block of lines that are not blank, closed by a blank line, fed to a fresh parser.\<close>

lemma feed_block:
  assumes "\<forall>l\<in>set ls. newline \<notin> set l \<and> trim l \<noteq> []"
    and "newline \<notin> set b" and "trim b = []"
  shows "feed initial_state (stream_text (ls @ [b])) =
           (initial_state,
            if concat (data_values ls) = [] then []
            else [\<lparr>event = cur_event (fst (process_lines empty_event ls)),
                   data = join_newline (dropWhile (\<lambda>v. v = []) (data_values ls)),
                   id_field = cur_id (fst (process_lines empty_event ls))\<rparr>])"
proof -
  let ?cur = "fst (process_lines empty_event ls)"
  have nl: "\<forall>l\<in>set (ls @ [b]). newline \<notin> set l"
    using assms by simp
  have nb: "\<forall>l\<in>set ls. trim l \<noteq> []"
    using assms by simp
  have silent: "snd (process_lines empty_event ls) = []"
    using nb by (rule process_lines_silent)
  have d: "cur_data ?cur =
      (if data_values ls = [] then None
       else Some (join_newline (dropWhile (\<lambda>v. v = []) (data_values ls))))"
    using process_lines_data [OF nb, of empty_event] by (simp add: empty_event_def)
  have tr: "truthy (cur_data ?cur) \<longleftrightarrow> concat (data_values ls) \<noteq> []"
    unfolding d using join_dropWhile_empty [of "data_values ls"] by auto
  have the_d: "concat (data_values ls) \<noteq> [] \<Longrightarrow>
      the (cur_data ?cur) = join_newline (dropWhile (\<lambda>v. v = []) (data_values ls))"
    unfolding d by auto
  have last: "process_line ?cur b =
      (empty_event,
       if concat (data_values ls) = [] then None
       else Some \<lparr>event = cur_event ?cur,
                  data = join_newline (dropWhile (\<lambda>v. v = []) (data_values ls)),
                  id_field = cur_id ?cur\<rparr>)"
    using assms(3) tr the_d by (simp add: process_line_def)
  have "process_lines empty_event (ls @ [b]) =
      (empty_event,
       if concat (data_values ls) = [] then []
       else [\<lparr>event = cur_event ?cur,
              data = join_newline (dropWhile (\<lambda>v. v = []) (data_values ls)),
              id_field = cur_id ?cur\<rparr>])"
    using silent last by (simp add: process_lines_snoc)
  then show ?thesis
    using feed_lines [OF nl, of empty_event] by (simp add: initial_state_def)
qed

text \<open>
  The block \<open>data: x\<close> closed by a blank line hands out a record whose \<open>event\<close> is
  missing: no \<open>message\<close> label is put in its place.
\<close>

theorem default_event_label_counterexample:
  "snd (feed initial_state (''data: x'' @ [newline, newline])) =
     [\<lparr>event = None, data = ''x'', id_field = None\<rparr>] \<and>
   map event (snd (feed initial_state (''data: x'' @ [newline, newline]))) \<noteq> [Some ''message'']"
  by code_simp

text \<open>
  C2, as the code has it. For a block of lines that are not blank, none of them an
  \<open>event\<close> line, closed by a blank line: the record handed to \<open>onMessage\<close> has no
  \<open>event\<close> (the property is missing), and a record is handed out exactly when some
  data value is not empty.
\<close>

theorem event_absent_without_event_field:
  assumes "\<forall>l\<in>set ls. newline \<notin> set l \<and> trim l \<noteq> [] \<and> field_value ''event'' l = None"
    and "newline \<notin> set b" and "trim b = []"
  shows "map event (snd (feed initial_state (stream_text (ls @ [b])))) =
           (if concat (data_values ls) = [] then [] else [None])"
proof -
  have "cur_event (fst (process_lines empty_event ls)) = cur_event empty_event"
    using assms(1) by (intro process_lines_event) simp
  then have "cur_event (fst (process_lines empty_event ls)) = None"
    by (simp add: empty_event_def)
  moreover have "\<forall>l\<in>set ls. newline \<notin> set l \<and> trim l \<noteq> []"
    using assms(1) by simp
  ultimately show ?thesis
    using feed_block [OF _ assms(2,3), of ls] by simp
qed

theorem event_absent_without_event_field_witness:
  "map event (snd (feed initial_state (stream_text [''data: x'', '''']))) = [None]"
  using event_absent_without_event_field [of "[''data: x'']" "[]"]
  by (simp add: newline_def trim_def isWhiteSpace_def field_value_def data_values_def)

text \<open>
  The values \<open>''\<close> and \<open>b\<close>: the record carries \<open>b\<close>, not the two values joined by a
  newline.
\<close>

theorem data_join_counterexample:
  "data_values [''data:'', ''data: b''] = ['''', ''b''] \<and>
   map data (snd (feed initial_state (''data:'' @ [newline] @ ''data: b'' @ [newline, newline])))
     = [''b''] \<and>
   map data (snd (feed initial_state (''data:'' @ [newline] @ ''data: b'' @ [newline, newline])))
     \<noteq> [join_newline ['''', ''b'']]"
  by (simp add: feed_def initial_state_def newline_def process_line_def trim_def isWhiteSpace_def
      empty_event_def set_field_def pop_or_empty_def field_value_def data_values_def)

text \<open>
  C3, as the code has it. For a block of lines that are not blank, closed by a blank
  line, whose data lines carry the values \<open>v1 .. vn\<close> in this order, \<open>v1\<close> not empty:
  exactly one record is handed out and its data is \<open>v1 .. vn\<close> joined with single
  newlines in this order. When every value is empty no record is handed out.
\<close>

theorem data_joined_in_arrival_order:
  assumes "\<forall>l\<in>set ls. newline \<notin> set l \<and> trim l \<noteq> []"
    and "newline \<notin> set b" and "trim b = []"
  shows "(data_values ls = v # vs \<and> v \<noteq> [] \<longrightarrow>
            map data (snd (feed initial_state (stream_text (ls @ [b])))) =
              [join_newline (v # vs)]) \<and>
         (concat (data_values ls) = [] \<longrightarrow>
            snd (feed initial_state (stream_text (ls @ [b]))) = [])"
proof (intro conjI impI)
  assume "data_values ls = v # vs \<and> v \<noteq> []"
  then show "map data (snd (feed initial_state (stream_text (ls @ [b])))) =
      [join_newline (v # vs)]"
    using feed_block [OF assms] by simp
next
  assume "concat (data_values ls) = []"
  then show "snd (feed initial_state (stream_text (ls @ [b]))) = []"
    using feed_block [OF assms] by simp
qed

theorem data_joined_in_arrival_order_witness:
  "map data (snd (feed initial_state (stream_text [''data: a'', ''data: b'', []]))) =
     [''a'' @ [newline] @ ''b''] \<and>
   snd (feed initial_state (stream_text [''data:'', ''id: 1'', []])) = []"
  using data_joined_in_arrival_order
      [where ls = "[''data: a'', ''data: b'']" and b = "[]" and v = "''a''" and vs = "[''b'']"]
    data_joined_in_arrival_order [where ls = "[''data:'', ''id: 1'']" and b = "[]"]
  by (simp add: newline_def trim_def isWhiteSpace_def field_value_def data_values_def)

lemma run_lines_silent:
  "snd (process_lines cur ls) = [] \<Longrightarrow>
     run_lines h s cur ls = (s, Inr (fst (process_lines cur ls)))"
proof (induction ls arbitrary: cur)
  case Nil
  then show ?case by simp
next
  case (Cons l ls)
  from Cons.prems have none: "snd (process_line cur l) = None"
    and rest: "snd (process_lines (fst (process_line cur l)) ls) = []"
    by (auto simp: process_lines_Cons_snd simp del: process_lines.simps split: option.splits)
  obtain cur1 where p: "process_line cur l = (cur1, None)"
    using none by (cases "process_line cur l") auto
  have "run_lines h s cur (l # ls) = run_lines h s cur1 ls"
    using p by simp
  also have "\<dots> = (s, Inr (fst (process_lines cur1 ls)))"
    using rest p by (intro Cons.IH) simp
  also have "fst (process_lines cur1 ls) = fst (process_lines cur (l # ls))"
    using p by (simp add: process_lines_Cons_fst del: process_lines.simps)
  finally show ?case .
qed

lemma blank_lines_after_reset:
  "(\<forall>b\<in>set bs. trim b = []) \<Longrightarrow> process_lines empty_event bs = (empty_event, [])"
  by (induction bs) (simp_all add: process_line_def empty_event_def)

lemma id_or_event_line:
  assumes "take 3 l = ''id:'' \<or> take 6 l = ''event:''"
  shows "trim l \<noteq> []" and "field_value ''data'' l = None"
proof -
  have "CHR '':'' \<in> set (take 3 l) \<or> CHR '':'' \<in> set (take 6 l)"
    using assms by auto
  then have "CHR '':'' \<in> set l"
    by (meson in_set_takeD)
  then show "trim l \<noteq> []" by (rule colon_not_blank)
  have "take 5 l \<noteq> ''data:''"
  proof
    assume d: "take 5 l = ''data:''"
    from assms show False
    proof
      assume i: "take 3 l = ''id:''"
      have "take 3 l = take 3 (take 5 l)" by simp
      also have "\<dots> = ''dat''" unfolding d by simp
      finally show False using i by simp
    next
      assume e: "take 6 l = ''event:''"
      have "take 5 l = take 5 (take 6 l)" by simp
      also have "\<dots> = ''event''" unfolding e by simp
      finally show False using d by simp
    qed
  qed
  then show "field_value ''data'' l = None" by (simp add: field_value_def eval_nat_numeral)
qed

lemma data_values_id_or_event:
  "(\<forall>l\<in>set ls. take 3 l = ''id:'' \<or> take 6 l = ''event:'') \<Longrightarrow> data_values ls = []"
  by (induction ls) (simp_all add: data_values_def id_or_event_line(2))

text \<open>
  C4. A line hands out a record only if it is blank and the accumulated data is not
  empty, and the record is the accumulator; every blank line resets the accumulator; a
  block of \<open>id\<close> and \<open>event\<close> lines closed by a blank line calls no callback, throws
  nothing and leaves the trace as it was; blank lines that follow a blank line hand out
  nothing more.
\<close>

theorem emission_only_at_blank_line:
  "(process_line cur l = (cur', Some m) \<longrightarrow>
      trim l = [] \<and> cur_data cur = Some (data m) \<and> data m \<noteq> [] \<and>
      event m = cur_event cur \<and> id_field m = cur_id cur) \<and>
   (trim l = [] \<longrightarrow> fst (process_line cur l) = empty_event) \<and>
   ((\<forall>x\<in>set ls. take 3 x = ''id:'' \<or> take 6 x = ''event:'') \<and> trim b = [] \<longrightarrow>
      run_lines h s empty_event (ls @ [b]) = (s, Inr empty_event)) \<and>
   (trim b = [] \<and> (\<forall>x\<in>set bs. trim x = []) \<longrightarrow>
      snd (process_lines cur (b # bs)) = snd (process_lines cur [b]))"
proof (intro conjI impI)
  assume a: "process_line cur l = (cur', Some m)"
  show blank: "trim l = []"
  proof (rule ccontr)
    assume "trim l \<noteq> []"
    then have "snd (process_line cur l) = None" by (rule process_line_nonblank_silent)
    then show False using a by simp
  qed
  have m: "truthy (cur_data cur)"
    "m = \<lparr>event = cur_event cur, data = the (cur_data cur), id_field = cur_id cur\<rparr>"
    using a blank by (auto simp: process_line_def split: if_splits)
  then show "cur_data cur = Some (data m)" "data m \<noteq> []"
    "event m = cur_event cur" "id_field m = cur_id cur"
    by (cases "cur_data cur"; simp)+
next
  assume "trim l = []"
  then show "fst (process_line cur l) = empty_event" by (simp add: process_line_def)
next
  assume a: "(\<forall>x\<in>set ls. take 3 x = ''id:'' \<or> take 6 x = ''event:'') \<and> trim b = []"
  then have nb: "\<forall>x\<in>set ls. trim x \<noteq> []" and dv: "data_values ls = []"
    using id_or_event_line(1) data_values_id_or_event by blast+
  have d: "cur_data (fst (process_lines empty_event ls)) = None"
    using process_lines_data [OF nb, of empty_event] dv by (simp add: empty_event_def)
  have "process_lines empty_event (ls @ [b]) = (empty_event, [])"
    using process_lines_silent [OF nb, of empty_event] a d
    by (simp add: process_lines_snoc process_line_def)
  then show "run_lines h s empty_event (ls @ [b]) = (s, Inr empty_event)"
    using run_lines_silent [of empty_event "ls @ [b]" h s] by simp
next
  assume a: "trim b = [] \<and> (\<forall>x\<in>set bs. trim x = [])"
  then have "fst (process_line cur b) = empty_event" by (simp add: process_line_def)
  moreover have "process_lines empty_event bs = (empty_event, [])"
    using a by (intro blank_lines_after_reset) simp
  ultimately show "snd (process_lines cur (b # bs)) = snd (process_lines cur [b])"
    by (simp add: process_lines_Cons_snd del: process_lines.simps) simp
qed

theorem emission_only_at_blank_line_witness:
  "trim [] = [] \<and>
   fst (process_line \<lparr>cur_event = None, cur_data = Some ''x'', cur_id = None\<rparr> []) = empty_event \<and>
   run_lines None new_attempt empty_event [''id: 7'', ''event: state'', []] =
     (new_attempt, Inr empty_event) \<and>
   snd (process_lines \<lparr>cur_event = None, cur_data = Some ''x'', cur_id = None\<rparr> [[], [], []]) =
     [\<lparr>event = None, data = ''x'', id_field = None\<rparr>]"
  using emission_only_at_blank_line
    [where cur = "\<lparr>cur_event = None, cur_data = Some ''x'', cur_id = None\<rparr>" and l = "[]"
       and cur' = empty_event and m = "\<lparr>event = None, data = ''x'', id_field = None\<rparr>"
       and ls = "[''id: 7'', ''event: state'']" and b = "[]" and h = None and s = new_attempt
       and bs = "[[], []]"]
  by (simp add: process_line_def trim_def)

section \<open>The read loop and the attempt\<close>

lemma read_loop_unsubscribed:
  "\<not> isSubscribed s \<Longrightarrow> read_loop h s st reads = (s, LoopGuardFalse)"
  by (simp add: read_loop.simps)

lemma read_loop_Nil: "isSubscribed s \<Longrightarrow> read_loop h s st [] = (s, Suspended)"
  by (simp add: read_loop.simps)

lemma read_loop_Cons:
  "isSubscribed s \<Longrightarrow>
     read_loop h s st ((a, p) # rest) =
       (case p of
          Never \<Rightarrow> (request a s, Suspended)
        | Rejects e \<Rightarrow> (request a s, Caught ReadFailure e)
        | Resolves Done \<Rightarrow> (request a s, StreamEnded)
        | Resolves (Chunk chunk) \<Rightarrow>
            (case run_lines h (request a s) (currentEvent st)
                    (butlast (split_newline (buffer st @ chunk))) of
               (s'', Inl e) \<Rightarrow> (s'', Caught CallbackException e)
             | (s'', Inr cur') \<Rightarrow>
                 read_loop h s''
                   \<lparr>buffer = pop_or_empty (split_newline (buffer st @ chunk)),
                    currentEvent = cur'\<rparr> rest))"
  by (subst read_loop.simps) (simp add: Let_def)

lemma request_simps:
  "trace (request a s) = trace s @ (if a = NoAction then [] else [CancelRequested])"
  "aborted (request a s) = (aborted s \<or> a \<noteq> NoAction)"
  "isSubscribed (request a s) = (isSubscribed s \<and> a \<noteq> RunCleanup)"
  by (cases a; simp)+

lemma after_cancel_append:
  "after_cancel (t @ u) =
     (if CancelRequested \<in> set t then after_cancel t @ u else after_cancel u)"
  by (induction t) auto

lemma after_cancel_none: "CancelRequested \<notin> set t \<Longrightarrow> after_cancel t = []"
  by (induction t) auto

lemma filter_after_cancel: "filter P t = [] \<Longrightarrow> filter P (after_cancel t) = []"
  by (induction t) (auto split: if_splits)

lemma consistent_new: "consistent new_attempt"
  by (simp add: consistent_def new_attempt_def)

lemma consistent_request: "consistent s \<Longrightarrow> consistent (request a s)"
  by (cases a) (auto simp: consistent_def)

lemma consistent_run_lines:
  "consistent s \<Longrightarrow> consistent (fst (run_lines h s cur ls))"
proof (induction ls arbitrary: s cur)
  case Nil
  then show ?case by simp
next
  case (Cons l ls)
  obtain cur1 out where p: "process_line cur l = (cur1, out)"
    by (cases "process_line cur l")
  show ?case
  proof (cases out)
    case None
    then show ?thesis using p Cons by simp
  next
    case (Some m)
    show ?thesis
    proof (cases h)
      case None
      then show ?thesis using p Some Cons by simp
    next
      case (Some f)
      let ?s1 = "request (cb_action (f (trace s) m)) (s\<lparr>trace := trace s @ [OnMessage m]\<rparr>)"
      have "consistent (s\<lparr>trace := trace s @ [OnMessage m]\<rparr>)"
        using Cons.prems by (simp add: consistent_def)
      then have c1: "consistent ?s1" by (rule consistent_request)
      show ?thesis
      proof (cases "cb_throws (f (trace s) m)")
        case None
        then show ?thesis
          using p \<open>out = Some m\<close> Some Cons.IH [OF c1] by (simp add: Let_def)
      next
        case (Some e)
        then show ?thesis
          using p \<open>out = Some m\<close> \<open>h = Some f\<close> c1 by (simp add: Let_def)
      qed
    qed
  qed
qed

lemma consistent_read_loop:
  "consistent s \<Longrightarrow> consistent (fst (read_loop h s st reads))"
proof (induction reads arbitrary: s st)
  case Nil
  then show ?case
    by (cases "isSubscribed s") (simp_all add: read_loop_Nil read_loop_unsubscribed)
next
  case (Cons r reads)
  obtain a p where r: "r = (a, p)" by (cases r)
  show ?case
  proof (cases "isSubscribed s")
    case False
    then show ?thesis using Cons.prems by (simp add: read_loop_unsubscribed)
  next
    case True
    have c1: "consistent (request a s)"
      using Cons.prems by (rule consistent_request)
    show ?thesis
    proof (cases p)
      case (Resolves x)
      show ?thesis
      proof (cases x)
        case (Chunk chunk)
        let ?run = "run_lines h (request a s) (currentEvent st)
                      (butlast (split_newline (buffer st @ chunk)))"
        have c2: "consistent (fst ?run)"
          using c1 by (rule consistent_run_lines)
        obtain s2 res where run: "?run = (s2, res)" by (cases ?run)
        then have c2': "consistent s2" using c2 by simp
        show ?thesis
        proof (cases res)
          case (Inl e)
          then show ?thesis
            using True r Resolves Chunk run c2' by (simp add: read_loop_Cons)
        next
          case (Inr cur')
          then show ?thesis
            using True r Resolves Chunk run Cons.IH [OF c2'] by (simp add: read_loop_Cons)
        qed
      next
        case Done
        then show ?thesis using True r Resolves c1 by (simp add: read_loop_Cons)
      qed
    next
      case (Rejects e)
      then show ?thesis using True r c1 by (simp add: read_loop_Cons)
    next
      case Never
      then show ?thesis using True r c1 by (simp add: read_loop_Cons)
    qed
  qed
qed

lemma consistent_try_block: "consistent (fst (try_block env))"
proof -
  obtain a1 p1 where g: "getToken env = (a1, p1)" by (cases "getToken env")
  have c1: "consistent (request a1 new_attempt)"
    using consistent_new by (rule consistent_request)
  show ?thesis
  proof (cases p1)
    case (Resolves token)
    obtain a2 p2 where f: "fetch env (''Bearer '' @ token) = (a2, p2)"
      by (cases "fetch env (''Bearer '' @ token)")
    have c2: "consistent (request a2 (request a1 new_attempt))"
      using c1 by (rule consistent_request)
    show ?thesis
    proof (cases p2)
      case (Resolves resp)
      show ?thesis
      proof (cases "body resp")
        case None
        then show ?thesis
          using g \<open>p1 = Resolves token\<close> f Resolves c2 by (simp add: try_block_def Let_def)
      next
        case (Some reads)
        then show ?thesis
          using g \<open>p1 = Resolves token\<close> f Resolves c2
            consistent_read_loop [OF c2, of "onMessage env" initial_state reads]
          by (simp add: try_block_def Let_def)
      qed
    next
      case (Rejects e)
      then show ?thesis
        using g \<open>p1 = Resolves token\<close> f c2 by (simp add: try_block_def Let_def)
    next
      case Never
      then show ?thesis
        using g \<open>p1 = Resolves token\<close> f c2 by (simp add: try_block_def Let_def)
    qed
  next
    case (Rejects e)
    then show ?thesis using g c1 by (simp add: try_block_def Let_def)
  next
    case Never
    then show ?thesis using g c1 by (simp add: try_block_def Let_def)
  qed
qed

text \<open>The two ways an attempt ends: the catch block calls \<open>onError\<close>, or it does not.\<close>

lemma connect_cases:
  obtains (reported) s cause e where
      "consistent s" "\<not> aborted s" "isSubscribed s" "onError env"
      "try_block env = (s, Caught cause e)"
      "connect env = (trace s @ [OnError (error_message e)], Caught cause e)"
    | (silent) s out where
      "consistent s" "try_block env = (s, out)" "connect env = (trace s, out)"
      "(\<forall>cause e. out \<noteq> Caught cause e) \<or> aborted s \<or> \<not> isSubscribed s \<or> \<not> onError env"
proof -
  obtain s out where t: "try_block env = (s, out)" by (cases "try_block env")
  have c: "consistent s" using consistent_try_block [of env] t by simp
  show ?thesis
  proof (cases "(\<exists>cause e. out = Caught cause e) \<and> \<not> aborted s \<and> isSubscribed s \<and> onError env")
    case True
    then obtain cause e where o: "out = Caught cause e" by blast
    have "connect env = (trace s @ [OnError (error_message e)], Caught cause e)"
      using True t o by (simp add: connect_def finish_def catch_block_def)
    then show ?thesis using reported c True t o by blast
  next
    case False
    have "connect env = (trace s, out)"
      using False t by (cases out) (auto simp: connect_def finish_def catch_block_def)
    then show ?thesis using silent [OF c t] False by blast
  qed
qed

text \<open>
  With a callback that only returns, the loop over the lines calls \<open>onMessage\<close> with the
  records of \<open>process_lines\<close>, and the read loop with those of \<open>feed_all\<close>.
\<close>

lemma run_lines_returning:
  "run_lines (Some returning_callback) s cur ls =
     (s\<lparr>trace := trace s @ map OnMessage (snd (process_lines cur ls))\<rparr>,
      Inr (fst (process_lines cur ls)))"
proof (induction ls arbitrary: s cur)
  case Nil
  then show ?case by simp
next
  case (Cons l ls)
  obtain cur1 out where p: "process_line cur l = (cur1, out)"
    by (cases "process_line cur l")
  show ?case
  proof (cases out)
    case None
    then show ?thesis using p Cons [of s cur1] by (simp split: prod.splits)
  next
    case (Some m)
    then show ?thesis
      using p Cons [of "s\<lparr>trace := trace s @ [OnMessage m]\<rparr>" cur1]
      by (simp add: returning_callback_def split: prod.splits)
  qed
qed

lemma read_loop_returning:
  "isSubscribed s \<Longrightarrow>
     read_loop (Some returning_callback) s st (map (\<lambda>c. (NoAction, Resolves (Chunk c))) chunks) =
       (s\<lparr>trace := trace s @ map OnMessage (snd (feed_all st chunks))\<rparr>, Suspended)"
proof (induction chunks arbitrary: s st)
  case Nil
  then show ?case by (simp add: read_loop_Nil)
next
  case (Cons c cs)
  let ?lines = "split_newline (buffer st @ c)"
  let ?p = "process_lines (currentEvent st) (butlast ?lines)"
  let ?s1 = "s\<lparr>trace := trace s @ map OnMessage (snd ?p)\<rparr>"
  let ?st1 = "\<lparr>buffer = pop_or_empty ?lines, currentEvent = fst ?p\<rparr>"
  have f: "feed st c = (?st1, snd ?p)"
    by (simp add: feed_def Let_def split: prod.splits)
  have "isSubscribed ?s1" using Cons.prems by simp
  then have "read_loop (Some returning_callback) ?s1 ?st1
      (map (\<lambda>c. (NoAction, Resolves (Chunk c))) cs) =
      (?s1\<lparr>trace := trace ?s1 @ map OnMessage (snd (feed_all ?st1 cs))\<rparr>, Suspended)"
    by (rule Cons.IH)
  then show ?case
    using Cons.prems f by (simp add: read_loop_Cons run_lines_returning split: prod.splits)
qed

lemma read_loop_partial_block:
  assumes "isSubscribed s"
  shows "\<forall>l\<in>set (butlast (split_newline (buffer st @ concat chunks))). trim l \<noteq> [] \<Longrightarrow>
     read_loop h s st
       (map (\<lambda>c. (NoAction, Resolves (Chunk c))) chunks @ [(NoAction, Resolves Done)]) =
     (s, StreamEnded)"
proof (induction chunks arbitrary: st)
  case Nil
  then show ?case using assms by (simp add: read_loop_Cons)
next
  case (Cons c cs)
  let ?x = "buffer st @ c"
  let ?lines = "butlast (split_newline ?x)"
  let ?rest = "last (split_newline ?x)"
  have sp: "split_newline (?x @ concat cs) =
      ?lines @ split_newline (?rest @ concat cs)"
    by (rule split_newline_append)
  have bl: "butlast (split_newline (?x @ concat cs)) =
      ?lines @ butlast (split_newline (?rest @ concat cs))"
    unfolding sp by (simp add: butlast_append split_newline_not_Nil)
  have all: "\<forall>l\<in>set (butlast (split_newline (?x @ concat cs))). trim l \<noteq> []"
    using Cons.prems by simp
  have nb1: "\<forall>l\<in>set ?lines. trim l \<noteq> []"
    and nb2: "\<forall>l\<in>set (butlast (split_newline (?rest @ concat cs))). trim l \<noteq> []"
    using all unfolding bl by simp_all
  have "snd (process_lines (currentEvent st) ?lines) = []"
    using nb1 by (rule process_lines_silent)
  then have run: "run_lines h s (currentEvent st) ?lines =
      (s, Inr (fst (process_lines (currentEvent st) ?lines)))"
    by (rule run_lines_silent)
  let ?st' = "\<lparr>buffer = pop_or_empty (split_newline ?x),
              currentEvent = fst (process_lines (currentEvent st) ?lines)\<rparr>"
  have buf: "buffer ?st' = ?rest"
    by (simp add: pop_or_empty_def split_newline_not_Nil)
  have "read_loop h s ?st'
       (map (\<lambda>c. (NoAction, Resolves (Chunk c))) cs @ [(NoAction, Resolves Done)]) =
     (s, StreamEnded)"
    using nb2 by (intro Cons.IH) (simp only: buf)
  then show ?case
    using assms run by (simp add: read_loop_Cons)
qed

text \<open>
  C5. If the stream ends before a blank line arrives, what has been accumulated is
  dropped: from any state of the loop, when the text still to come holds no complete
  blank line and the reader then reports the end of the stream, the loop ends without
  calling \<open>onMessage\<close> or \<open>onError\<close> (the attempt and its trace are as before) and without
  entering the catch block. Feeding \<open>data: x\<close> and then ending the stream calls nothing.
\<close>

theorem trailing_partial_record_dropped:
  assumes "isSubscribed s"
    and "\<forall>l\<in>set (butlast (split_newline (buffer st @ concat chunks))). trim l \<noteq> []"
  shows "finish has_onError
           (read_loop h s st
              (map (\<lambda>c. (NoAction, Resolves (Chunk c))) chunks @ [(NoAction, Resolves Done)])) =
         (s, StreamEnded)"
  using read_loop_partial_block [OF assms] by (simp add: finish_def)

theorem trailing_partial_record_dropped_witness:
  "finish True
     (read_loop (Some returning_callback) new_attempt initial_state
        [(NoAction, Resolves (Chunk ''data: x'')), (NoAction, Resolves Done)]) =
     (new_attempt, StreamEnded) \<and>
   connect (streaming [(NoAction, Resolves (Chunk ''data: x'')), (NoAction, Resolves Done)]
     (Some returning_callback)) = ([], StreamEnded)"
proof -
  have "finish True
     (read_loop (Some returning_callback) new_attempt initial_state
        (map (\<lambda>c. (NoAction, Resolves (Chunk c))) [''data: x''] @ [(NoAction, Resolves Done)])) =
     (new_attempt, StreamEnded)"
    by (rule trailing_partial_record_dropped)
      (simp_all add: new_attempt_def initial_state_def newline_def)
  then have r: "finish True
     (read_loop (Some returning_callback) new_attempt initial_state
        [(NoAction, Resolves (Chunk ''data: x'')), (NoAction, Resolves Done)]) =
     (new_attempt, StreamEnded)"
    by simp
  then have "connect (streaming [(NoAction, Resolves (Chunk ''data: x'')), (NoAction, Resolves Done)]
     (Some returning_callback)) = ([], StreamEnded)"
    by (simp add: connect_def try_block_def streaming_def new_attempt_def)
  then show ?thesis using r by simp
qed

text \<open>
  What the loop guard gives. The cleanup clears \<open>isSubscribed\<close> and nothing sets it again,
  so after a cleanup during a read the fragment in flight is the last one that is read:
  the reads that follow are never looked at.
\<close>

lemma run_lines_unsubscribed:
  "\<not> isSubscribed s \<Longrightarrow> \<not> isSubscribed (fst (run_lines h s cur ls))"
proof (induction ls arbitrary: s cur)
  case Nil
  then show ?case by simp
next
  case (Cons l ls)
  obtain cur1 out where p: "process_line cur l = (cur1, out)"
    by (cases "process_line cur l")
  show ?case
  proof (cases out)
    case None
    then show ?thesis using p Cons by simp
  next
    case (Some m)
    show ?thesis
    proof (cases h)
      case None
      then show ?thesis using p Some Cons by simp
    next
      case (Some f)
      let ?s1 = "request (cb_action (f (trace s) m)) (s\<lparr>trace := trace s @ [OnMessage m]\<rparr>)"
      have u1: "\<not> isSubscribed ?s1"
        using Cons.prems by (simp add: request_simps)
      show ?thesis
      proof (cases "cb_throws (f (trace s) m)")
        case None
        then show ?thesis
          using p \<open>out = Some m\<close> Some Cons.IH [OF u1] by (simp add: Let_def)
      next
        case (Some e)
        then show ?thesis
          using p \<open>out = Some m\<close> \<open>h = Some f\<close> u1 by (simp add: Let_def)
      qed
    qed
  qed
qed

lemma nothing_read_after_cleanup:
  assumes "isSubscribed s"
  shows "read_loop h s st ((RunCleanup, Resolves (Chunk c)) # rest) =
     (case run_lines h (request RunCleanup s) (currentEvent st)
             (butlast (split_newline (buffer st @ c))) of
        (s', Inl e) \<Rightarrow> (s', Caught CallbackException e)
      | (s', Inr cur') \<Rightarrow> (s', LoopGuardFalse))"
proof -
  let ?run = "run_lines h (request RunCleanup s) (currentEvent st)
                (butlast (split_newline (buffer st @ c)))"
  obtain s' res where run: "?run = (s', res)" by (cases ?run)
  have "\<not> isSubscribed (fst ?run)"
    by (rule run_lines_unsubscribed) simp
  then have "\<not> isSubscribed s'" using run by simp
  then show ?thesis
    using assms run by (cases res) (simp_all add: read_loop_Cons read_loop_unsubscribed)
qed

text \<open>A cleanup while the token is awaited: no callback is called in the attempt.\<close>

lemma cleanup_before_token:
  assumes "fst (getToken env) = RunCleanup"
  shows "filter is_callback (fst (connect env)) = []"
proof -
  obtain p1 where g: "getToken env = (RunCleanup, p1)"
    using assms by (cases "getToken env") simp
  let ?s1 = "request RunCleanup new_attempt"
  have s1: "\<not> isSubscribed ?s1" "aborted ?s1" "filter is_callback (trace ?s1) = []"
    by (simp_all add: new_attempt_def)
  show ?thesis
  proof (cases p1)
    case (Resolves token)
    obtain a2 p2 where f: "fetch env (''Bearer '' @ token) = (a2, p2)"
      by (cases "fetch env (''Bearer '' @ token)")
    let ?s2 = "request a2 ?s1"
    have s2: "\<not> isSubscribed ?s2" "aborted ?s2" "filter is_callback (trace ?s2) = []"
      using s1 by (simp_all add: request_simps)
    have t: "\<exists>out. try_block env = (?s2, out)"
      using g Resolves f s2(1)
      by (simp add: try_block_def Let_def read_loop_unsubscribed
          split: promise.splits option.splits)
    then obtain out where "try_block env = (?s2, out)" ..
    then have "fst (connect env) = trace ?s2"
      using s2(2) by (cases out) (simp_all add: connect_def finish_def catch_block_def)
    then show ?thesis using s2(3) by simp
  next
    case (Rejects e)
    then have "fst (connect env) = trace ?s1"
      using g s1(2) by (simp add: connect_def finish_def catch_block_def try_block_def Let_def)
    then show ?thesis using s1(3) by simp
  next
    case Never
    then have "fst (connect env) = trace ?s1"
      using g by (simp add: connect_def finish_def try_block_def Let_def)
    then show ?thesis using s1(3) by simp
  qed
qed

text \<open>
  What the catch block gives. It tests the signal and \<open>isSubscribed\<close> before it calls
  \<open>onError\<close>: after a request to cancel, \<open>onError\<close> is not called, whatever the transport
  and the callback do.
\<close>

lemma onError_suppressed_after_cancel:
  "filter is_error (after_cancel (fst (connect env))) = []"
proof (cases env rule: connect_cases)
  case (reported s cause e)
  have "CancelRequested \<notin> set (trace s)"
    using reported(1,2) by (simp add: consistent_def)
  then have "after_cancel (fst (connect env)) = []"
    using reported(6) by (simp add: after_cancel_append)
  then show ?thesis by simp
next
  case (silent s out)
  have "filter is_error (after_cancel (trace s)) = []"
    using silent(1) by (intro filter_after_cancel) (simp add: consistent_def)
  then show ?thesis using silent(3) by simp
qed

text \<open>
  Inside one fragment the \<^verbatim>\<open>for\<close> loop tests nothing either: a callback that calls
  \<open>disconnect()\<close> on the first record of a fragment still gets the second.
\<close>

lemma disconnect_inside_callback_example:
  "fst (connect (streaming
     [(NoAction, Resolves (Chunk (''data: a'' @ [newline, newline] @ ''data: b'' @ [newline, newline]))),
      (NoAction, Rejects (ErrorObject ''AbortError''))] (Some stopping_callback))) =
     [OnMessage \<lparr>event = None, data = ''a'', id_field = None\<rparr>, CancelRequested,
      OnMessage \<lparr>event = None, data = ''b'', id_field = None\<rparr>, CancelRequested]"
  by code_simp

text \<open>
  C7. Once cancellation of an attempt has been requested, by the cleanup or by
  \<open>disconnect()\<close>, neither \<open>onMessage\<close> nor \<open>onError\<close> is to be called for it any more. The
  code keeps this for \<open>onError\<close> and stops reading after the cleanup, but between
  \<^verbatim>\<open>await reader.read()\<close> and the calls of \<open>onMessage\<close> it tests neither \<open>isSubscribed\<close> nor
  the signal. When cancellation is requested while a read is pending and the read then
  resolves with the fragment \<open>data: x\<close> and a blank line, \<open>onMessage\<close> is called with the
  record after the request, for the cleanup as for \<open>disconnect()\<close>.
\<close>

theorem onMessage_after_cancellation:
  "connect (streaming
     [(RunCleanup, Resolves (Chunk (''data: x'' @ [newline, newline])))]
     (Some returning_callback)) =
     ([CancelRequested, OnMessage \<lparr>event = None, data = ''x'', id_field = None\<rparr>],
      LoopGuardFalse) \<and>
   connect (streaming
     [(CallDisconnect, Resolves (Chunk (''data: x'' @ [newline, newline])))]
     (Some returning_callback)) =
     ([CancelRequested, OnMessage \<lparr>event = None, data = ''x'', id_field = None\<rparr>],
      Suspended)"
  by code_simp

text \<open>
  The token is supplied, the response is a success and no read fails; the callback
  throws, the exception reaches the catch block and \<open>onError\<close> is called with it.
\<close>

theorem onError_for_callback_exception_counterexample:
  "connect (streaming
     [(NoAction, Resolves (Chunk (''data: x'' @ [newline, newline]))),
      (NoAction, Resolves Done)] (Some throwing_callback)) =
     ([OnMessage \<lparr>event = None, data = ''x'', id_field = None\<rparr>, OnError ''boom''],
      Caught CallbackException (ErrorObject ''boom''))"
  by code_simp

text \<open>
  C8, as the code has it. In every attempt \<open>onError\<close> is called at most once, and only
  when an exception reaches the catch block while no cancellation has been requested:
  the exception is a credential failure, a rejected request, a non-success response, an
  unreadable body, a failed read, or one thrown by the \<open>onMessage\<close> callback, and
  \<open>onError\<close> gets that error as the last event of the attempt. It is never called when
  cancellation has been requested, and never when the stream ends normally.
\<close>

theorem onError_at_most_once:
  "length (filter is_error (fst (connect env))) \<le> 1 \<and>
   (filter is_error (fst (connect env)) \<noteq> [] \<longrightarrow>
      (\<exists>cause e. snd (connect env) = Caught cause e \<and>
         filter is_error (fst (connect env)) = [OnError (error_message e)] \<and>
         last (fst (connect env)) = OnError (error_message e)) \<and>
      CancelRequested \<notin> set (fst (connect env))) \<and>
   (snd (connect env) = StreamEnded \<longrightarrow> filter is_error (fst (connect env)) = [])"
proof (cases env rule: connect_cases)
  case (reported s cause e)
  have "filter is_error (trace s) = []" "CancelRequested \<notin> set (trace s)"
    using reported(1,2) by (simp_all add: consistent_def)
  then show ?thesis using reported(6) by simp
next
  case (silent s out)
  have "filter is_error (trace s) = []"
    using silent(1) by (simp add: consistent_def)
  then show ?thesis using silent(3) by simp
qed

theorem onError_at_most_once_witness:
  "connect (streaming
     [(NoAction, Resolves (Chunk (''data: x'' @ [newline, newline]))),
      (NoAction, Rejects (ErrorObject ''network''))] (Some returning_callback)) =
     ([OnMessage \<lparr>event = None, data = ''x'', id_field = None\<rparr>, OnError ''network''],
      Caught ReadFailure (ErrorObject ''network'')) \<and>
   length (filter is_error (fst (connect (streaming
     [(NoAction, Resolves (Chunk (''data: x'' @ [newline, newline]))),
      (NoAction, Rejects (ErrorObject ''network''))] (Some returning_callback))))) \<le> 1 \<and>
   connect (streaming [(NoAction, Resolves Done)] (Some returning_callback)) = ([], StreamEnded)"
  using onError_at_most_once [of "streaming
     [(NoAction, Resolves (Chunk (''data: x'' @ [newline, newline]))),
      (NoAction, Rejects (ErrorObject ''network''))] (Some returning_callback)"]
    onError_at_most_once [of "streaming [(NoAction, Resolves Done)] (Some returning_callback)"]
  by (simp add: connect_def finish_def catch_block_def try_block_def new_attempt_def
      read_loop.simps initial_state_def newline_def process_line_def trim_def isWhiteSpace_def
      empty_event_def set_field_def pop_or_empty_def streaming_def returning_callback_def)

end
